theory Spec2Isabelle
  imports Complex_Main "HOL-Library.Sublist"
begin

section \<open>Strings as the client uses them\<close>

text \<open>
  Strings are byte lists. The Python operations the client applies to them are
  \<^verbatim>\<open>sub in s\<close>, \<^verbatim>\<open>s.lower()\<close> (here on the ASCII letters),
  \<^verbatim>\<open>s.replace(old, new)\<close>, which replaces the occurrences from left to right, and
  the decimal rendering of an integer inside an f-string.
\<close>

fun contains :: "string \<Rightarrow> string \<Rightarrow> bool" where
  "contains sub [] = (sub = [])"
| "contains sub (c # cs) = (prefix sub (c # cs) \<or> contains sub cs)"

definition lower_char :: "char \<Rightarrow> char" where
  "lower_char c =
     (case map_of (zip ''ABCDEFGHIJKLMNOPQRSTUVWXYZ'' ''abcdefghijklmnopqrstuvwxyz'') c of
        Some l \<Rightarrow> l
      | None \<Rightarrow> c)"

definition str_lower :: "string \<Rightarrow> string" where
  "str_lower s = map lower_char s"

fun replace_from :: "string \<Rightarrow> string \<Rightarrow> string \<Rightarrow> string" where
  "replace_from [] old new = []"
| "replace_from (c # cs) old new =
     (if old \<noteq> [] \<and> prefix old (c # cs)
      then new @ replace_from (drop (length old) (c # cs)) old new
      else c # replace_from cs old new)"

definition str_replace :: "string \<Rightarrow> string \<Rightarrow> string \<Rightarrow> string" where
  "str_replace s old new =
     (if old = [] then new @ concat (map (\<lambda>c. c # new) s) else replace_from s old new)"

definition digit_char :: "nat \<Rightarrow> char" where
  "digit_char d = ''0123456789'' ! d"

fun str_nat :: "nat \<Rightarrow> string" where
  "str_nat n =
     (if n < 10 then [digit_char n] else str_nat (n div 10) @ [digit_char (n mod 10)])"

declare str_nat.simps [simp del]

definition str_int :: "int \<Rightarrow> string" where
  "str_int i = (if i < 0 then CHR ''-'' # str_nat (nat (- i)) else str_nat (nat i))"

text \<open>
  A plain decimal reader (an optional minus sign, then digits). It is the instance of
  Python's \<^verbatim>\<open>int(...)\<close> in the worked examples below; the functions that call
  \<^verbatim>\<open>int\<close> take the reader as an argument, so the theorems hold for whatever the
  interpreter accepts.
\<close>

definition digit_val :: "char \<Rightarrow> nat option" where
  "digit_val c = map_of (zip ''0123456789'' [0, 1, 2, 3, 4, 5, 6, 7, 8, 9]) c"

fun nat_of_digits :: "nat \<Rightarrow> string \<Rightarrow> nat option" where
  "nat_of_digits acc [] = Some acc"
| "nat_of_digits acc (c # cs) =
     (case digit_val c of None \<Rightarrow> None | Some d \<Rightarrow> nat_of_digits (10 * acc + d) cs)"

definition decimal_int :: "string \<Rightarrow> int option" where
  "decimal_int s =
     (case s of
        [] \<Rightarrow> None
      | c # cs \<Rightarrow>
          if c = CHR ''-''
          then (if cs = [] then None else map_option (\<lambda>n. - int n) (nat_of_digits 0 cs))
          else map_option int (nat_of_digits 0 s))"

section \<open>Responses and errors\<close>

text \<open>
  JSON values as Python holds them after \<^verbatim>\<open>json()\<close>: a mapping keeps its keys in
  order, so it is an association list.
\<close>

datatype json =
    JNull
  | JBool bool
  | JNum real
  | JStr string
  | JList "json list"
  | JDict "(string \<times> json) list"

text \<open>Python truthiness (\<^verbatim>\<open>if v\<close>, \<^verbatim>\<open>not v\<close>).\<close>

fun truthy :: "json \<Rightarrow> bool" where
  "truthy JNull = False"
| "truthy (JBool b) = b"
| "truthy (JNum x) = (x \<noteq> 0)"
| "truthy (JStr s) = (s \<noteq> [])"
| "truthy (JList xs) = (xs \<noteq> [])"
| "truthy (JDict kvs) = (kvs \<noteq> [])"

text \<open>
  What the paginating loop reads from a parsed body:
  \<^verbatim>\<open>next_response.get("results", [])\<close> and
  \<^verbatim>\<open>next_response.get("_links", {}).get("next", "")\<close>, the defaults applied.
  The body is taken to be a mapping of that shape; the type leaves other bodies out.
\<close>

record page =
  results :: "json list"
  next_link :: string

text \<open>
  A response of the HTTP client: \<open>headers\<close> is \<open>None\<close> when the attribute is
  \<^verbatim>\<open>None\<close>, otherwise its \<^verbatim>\<open>get\<close>; \<open>json_body\<close> is \<open>None\<close> when
  \<^verbatim>\<open>json()\<close> raises.
\<close>

record response =
  status_code :: int
  body_text :: string
  headers :: "(string \<Rightarrow> string option) option"
  json_body :: "page option"

text \<open>
  The exceptions that occur. \<open>HTTPError\<close> carries \<^verbatim>\<open>e.response\<close>, which may be
  \<^verbatim>\<open>None\<close>.
\<close>

datatype error =
    HTTPError "response option"
  | TimeoutError
  | AttributeError
  | ValueError
  | KeyError
  | RuntimeError
  | JSONDecodeError
  | ConnectorValidationError error
  | OtherError string

section \<open>The backoff classifier: \<^verbatim>\<open>_handle_http_error\<close>\<close>

abbreviation (input) RATE_LIMIT_MESSAGE_LOWERCASE :: string where
  "RATE_LIMIT_MESSAGE_LOWERCASE \<equiv> str_lower ''Rate limit exceeded''"

abbreviation (input) MIN_DELAY :: int where "MIN_DELAY \<equiv> 2"

abbreviation (input) MAX_DELAY :: int where "MAX_DELAY \<equiv> 60"

abbreviation (input) STARTING_DELAY :: int where "STARTING_DELAY \<equiv> 5"

abbreviation (input) BACKOFF :: int where "BACKOFF \<equiv> 2"

text \<open>
  The failure is re-raised (\<open>Inl\<close>) or a resume time is returned. \<open>py_int\<close> is
  \<^verbatim>\<open>int(retry_after_header)\<close>, \<open>None\<close> for \<^verbatim>\<open>ValueError\<close>; \<open>now\<close> is the
  reading of \<^verbatim>\<open>time.monotonic()\<close>, a real number of seconds.
\<close>

definition handle_http_error ::
  "(string \<Rightarrow> int option) \<Rightarrow> response option \<Rightarrow> nat \<Rightarrow> real \<Rightarrow> error + int" where
  "handle_http_error py_int e attempt now =
     (case e of
        None \<Rightarrow> Inl (HTTPError e)
      | Some r \<Rightarrow>
          (case headers r of
             None \<Rightarrow> Inl (HTTPError e)
           | Some hs \<Rightarrow>
               if status_code r \<noteq> 429
                  \<and> \<not> contains RATE_LIMIT_MESSAGE_LOWERCASE (str_lower (body_text r))
               then Inl (HTTPError e)
               else
                 let retry_after =
                       (case hs ''Retry-After'' of
                          None \<Rightarrow> None
                        | Some retry_after_header \<Rightarrow>
                            (case py_int retry_after_header of
                               None \<Rightarrow> None
                             | Some x \<Rightarrow>
                                 let x1 = (if x > MAX_DELAY then MAX_DELAY else x)
                                 in Some (if x1 < MIN_DELAY then MIN_DELAY else x1)));
                     delay =
                       (case retry_after of
                          Some d \<Rightarrow> d
                        | None \<Rightarrow> min (STARTING_DELAY * BACKOFF ^ attempt) MAX_DELAY)
                 in Inr \<lceil>now + of_int delay\<rceil>))"

text \<open>The classification of a failure as a rate limit, as the second test reads it.\<close>

definition rate_limited :: "response \<Rightarrow> bool" where
  "rate_limited r =
     (status_code r = 429 \<or> contains RATE_LIMIT_MESSAGE_LOWERCASE (str_lower (body_text r)))"

section \<open>The method retry wrapper: \<^verbatim>\<open>handle_confluence_rate_limit\<close>\<close>

text \<open>
  What the wrapper observes of its environment: the reading of \<^verbatim>\<open>time.monotonic()\<close>
  and, for the statements about attempts, how often the wrapped call has been invoked
  and the clock reading at which each invocation started.
\<close>

record world =
  clock :: real
  ncalls :: nat
  started :: "real list"

text \<open>
  The wrapped call: its \<open>k\<close>-th invocation takes some time and then returns a value
  (\<open>Inr\<close>) or raises (\<open>Inl\<close>).
\<close>

type_synonym 'a call = "nat \<Rightarrow> real \<times> (error + 'a)"

definition invoke :: "'a call \<Rightarrow> world \<Rightarrow> (error + 'a) \<times> world" where
  "invoke call w =
     (case call (ncalls w) of
        (d, out) \<Rightarrow>
          (out, w\<lparr>clock := clock w + d, ncalls := Suc (ncalls w),
                  started := started w @ [clock w]\<rparr>))"

text \<open>
  \<^verbatim>\<open>while time.monotonic() < delay_until: time.sleep(1)\<close>, a sleep of one second
  moving the clock by one second.
\<close>

function sleep_until :: "int \<Rightarrow> real \<Rightarrow> real" where
  "sleep_until delay_until t = (if t < of_int delay_until then sleep_until delay_until (t + 1) else t)"
  by pat_completeness auto

termination
proof (relation "measure (\<lambda>(d, t). nat \<lceil>of_int d - t\<rceil>)")
  show "wf (measure (\<lambda>(d, t). nat \<lceil>real_of_int d - t\<rceil>))" by simp
next
  fix delay_until :: int and t :: real
  assume "t < of_int delay_until"
  then show "((delay_until, t + 1), (delay_until, t)) \<in> measure (\<lambda>(d, t). nat \<lceil>real_of_int d - t\<rceil>)"
    by simp linarith
qed

declare sleep_until.simps [simp del]

text \<open>
  \<^verbatim>\<open>for attempt in range(MAX_RETRIES)\<close>, the list being the attempts still to come.
  A value the call returns is \<open>Inr (Some v)\<close>; leaving the loop without a
  \<^verbatim>\<open>return\<close> gives Python's \<^verbatim>\<open>None\<close>, here \<open>Inr None\<close>.
\<close>

abbreviation (input) MAX_RETRIES :: nat where "MAX_RETRIES \<equiv> 5"

abbreviation (input) TIMEOUT :: real where "TIMEOUT \<equiv> 600"

fun retry_loop ::
  "(string \<Rightarrow> int option) \<Rightarrow> 'a call \<Rightarrow> real \<Rightarrow> nat list \<Rightarrow> world
     \<Rightarrow> (error + 'a option) \<times> world" where
  "retry_loop py_int call timeout_at [] w = (Inr None, w)"
| "retry_loop py_int call timeout_at (attempt # rest) w =
     (if clock w > timeout_at then (Inl TimeoutError, w)
      else
        (case invoke call w of
           (Inr v, w1) \<Rightarrow> (Inr (Some v), w1)
         | (Inl (HTTPError e), w1) \<Rightarrow>
             (case handle_http_error py_int e attempt (clock w1) of
                Inl err \<Rightarrow> (Inl err, w1)
              | Inr delay_until \<Rightarrow>
                  retry_loop py_int call timeout_at rest
                    (w1\<lparr>clock := sleep_until delay_until (clock w1)\<rparr>))
         | (Inl AttributeError, w1) \<Rightarrow>
             if attempt = MAX_RETRIES - 1 then (Inl AttributeError, w1)
             else retry_loop py_int call timeout_at rest (w1\<lparr>clock := clock w1 + 5\<rparr>)
         | (Inl err, w1) \<Rightarrow> (Inl err, w1)))"

definition wrapped_call ::
  "(string \<Rightarrow> int option) \<Rightarrow> 'a call \<Rightarrow> world \<Rightarrow> (error + 'a option) \<times> world" where
  "wrapped_call py_int call w =
     retry_loop py_int call (clock w + TIMEOUT) [0..<MAX_RETRIES] w"

text \<open>
  The failures of an invocation after which the loop goes on to the next attempt: an
  HTTP error that \<^verbatim>\<open>_handle_http_error\<close> does not re-raise, and an
  \<^verbatim>\<open>AttributeError\<close> (before the last attempt).
\<close>

definition retryable :: "error + 'a \<Rightarrow> bool" where
  "retryable out =
     (case out of
        Inl (HTTPError (Some r)) \<Rightarrow> headers r \<noteq> None \<and> rate_limited r
      | Inl AttributeError \<Rightarrow> True
      | _ \<Rightarrow> False)"

text \<open>
  Two calls for the worked examples: every invocation is answered with status 429 and no
  \<^verbatim>\<open>Retry-After\<close> header, after 601 seconds and after one second.
\<close>

definition slow_rate_limited_call :: "unit call" where
  "slow_rate_limited_call k =
     (601, Inl (HTTPError (Some \<lparr>status_code = 429, body_text = [],
                                  headers = Some (\<lambda>h. None), json_body = None\<rparr>)))"

definition rate_limited_call :: "unit call" where
  "rate_limited_call k =
     (1, Inl (HTTPError (Some \<lparr>status_code = 429, body_text = [],
                                headers = Some (\<lambda>h. None), json_body = None\<rparr>)))"

section \<open>The cursor-paginating fetcher: \<^verbatim>\<open>_paginate_url\<close>\<close>

text \<open>
  The two helpers of \<^verbatim>\<open>onyx.connectors.confluence.utils\<close> that the loop calls are
  arguments of the model; either may raise.
\<close>

record url_utils =
  get_start_param_from_url :: "string \<Rightarrow> error + int"
  update_param_in_path :: "string \<Rightarrow> string \<Rightarrow> string \<Rightarrow> error + string"

text \<open>
  Modelled from the spec: the helpers \<^verbatim>\<open>get_start_param_from_url\<close> and
  \<^verbatim>\<open>update_param_in_path\<close>, on a cursor that is a URL fragment carrying a
  \<^verbatim>\<open>start\<close> offset among its query parameters. \<open>cursor_utils\<close> reads the offset (0
  when the parameter is absent) and rewrites one parameter in place. It is the instance
  used in the worked examples; the theorems are stated for every pair of helpers.
\<close>

fun split_on :: "char \<Rightarrow> string \<Rightarrow> string list" where
  "split_on sep [] = [[]]"
| "split_on sep (c # cs) =
     (case split_on sep cs of
        [] \<Rightarrow> [[c]]
      | w # ws \<Rightarrow> if c = sep then [] # w # ws else (c # w) # ws)"

definition key_value :: "string \<Rightarrow> string \<times> string" where
  "key_value kv = (takeWhile (\<lambda>c. c \<noteq> CHR ''='') kv, drop 1 (dropWhile (\<lambda>c. c \<noteq> CHR ''='') kv))"

definition query_params :: "string \<Rightarrow> (string \<times> string) list" where
  "query_params url =
     (let query = drop 1 (dropWhile (\<lambda>c. c \<noteq> CHR ''?'') url)
      in if query = [] then [] else map key_value (split_on CHR ''&'' query))"

fun join_params :: "(string \<times> string) list \<Rightarrow> string" where
  "join_params [] = []"
| "join_params [(k, v)] = k @ ''='' @ v"
| "join_params ((k, v) # kvs) = k @ ''='' @ v @ ''&'' @ join_params kvs"

fun set_param :: "string \<Rightarrow> string \<Rightarrow> (string \<times> string) list \<Rightarrow> (string \<times> string) list" where
  "set_param k v [] = [(k, v)]"
| "set_param k v ((k', v') # kvs) =
     (if k' = k then (k, v) # kvs else (k', v') # set_param k v kvs)"

definition cursor_utils :: url_utils where
  "cursor_utils =
     \<lparr>get_start_param_from_url =
        (\<lambda>url. case map_of (query_params url) ''start'' of
                  None \<Rightarrow> Inr 0
                | Some v \<Rightarrow> (case decimal_int v of None \<Rightarrow> Inl ValueError | Some n \<Rightarrow> Inr n)),
      update_param_in_path =
        (\<lambda>path param v.
           Inr (takeWhile (\<lambda>c. c \<noteq> CHR ''?'') path @ ''?''
                @ join_params (set_param param v (query_params path))))\<rparr>"

text \<open>
  What \<^verbatim>\<open>self.get(path=url_suffix, advanced_mode=True)\<close> gives: it raises, or it
  returns \<^verbatim>\<open>None\<close> (the retry wrapper around it can), or it returns a response.
\<close>

datatype get_result = GetRaises error | GetNone | GetResponse response

text \<open>
  One iteration of the \<^verbatim>\<open>while url_suffix\<close> loop: it continues with the records it
  yielded, the next \<^verbatim>\<open>url_suffix\<close> and the limit, or it raises after the records
  it yielded.
\<close>

datatype step_result = Continue "json list" string int | Raise "json list" error

abbreviation (input) PROBLEMATIC_EXPANSIONS :: string where
  "PROBLEMATIC_EXPANSIONS \<equiv> ''body.storage.value''"

abbreviation (input) REPLACEMENT_EXPANSIONS :: string where
  "REPLACEMENT_EXPANSIONS \<equiv> ''body.view.value''"

abbreviation (input) DEFAULT_PAGINATION_LIMIT :: int where
  "DEFAULT_PAGINATION_LIMIT \<equiv> 1000"

abbreviation (input) MINIMUM_PAGINATION_LIMIT :: int where
  "MINIMUM_PAGINATION_LIMIT \<equiv> 50"

text \<open>\<^verbatim>\<open>raise_for_status()\<close> raises for the statuses 400 to 599.\<close>

definition raise_for_status :: "response \<Rightarrow> bool" where
  "raise_for_status r = (400 \<le> status_code r \<and> status_code r < 600)"

text \<open>
  The part of the loop body after \<^verbatim>\<open>yield from results\<close>: the correction of the
  server's cursor, then the synthesis of a cursor under \<^verbatim>\<open>auto_paginate\<close>.
\<close>

definition next_cursor :: "url_utils \<Rightarrow> bool \<Rightarrow> string \<Rightarrow> page \<Rightarrow> error + string" where
  "next_cursor U auto_paginate old_url_suffix p =
     (let url_suffix = next_link p;
          n = int (length (results p))
      in case
           (if url_suffix \<noteq> [] \<and> contains ''start'' url_suffix
            then
              (case get_start_param_from_url U url_suffix of
                 Inl e \<Rightarrow> Inl e
               | Inr new_start \<Rightarrow>
                   (case get_start_param_from_url U old_url_suffix of
                      Inl e \<Rightarrow> Inl e
                    | Inr previous_start \<Rightarrow>
                        if new_start - previous_start > n
                        then update_param_in_path U url_suffix ''start''
                               (str_int (previous_start + n))
                        else Inr url_suffix))
            else Inr url_suffix)
         of
           Inl e \<Rightarrow> Inl e
         | Inr url_suffix' \<Rightarrow>
             if auto_paginate \<and> n > 0
             then
               (case get_start_param_from_url U old_url_suffix of
                  Inl e \<Rightarrow> Inl e
                | Inr previous_start \<Rightarrow>
                    update_param_in_path U old_url_suffix ''start''
                      (str_int (previous_start + n)))
             else Inr url_suffix')"

definition paginate_step ::
  "url_utils \<Rightarrow> bool \<Rightarrow> string \<Rightarrow> int \<Rightarrow> get_result \<Rightarrow> step_result" where
  "paginate_step U auto_paginate url_suffix limit raw_response =
     (case raw_response of
        GetRaises e \<Rightarrow> Raise [] e
      | GetNone \<Rightarrow>
          if contains PROBLEMATIC_EXPANSIONS url_suffix
          then Continue []
                 (str_replace url_suffix PROBLEMATIC_EXPANSIONS REPLACEMENT_EXPANSIONS) limit
          else Raise [] AttributeError
      | GetResponse r \<Rightarrow>
          if raise_for_status r
          then
            (if contains PROBLEMATIC_EXPANSIONS url_suffix
             then Continue []
                    (str_replace url_suffix PROBLEMATIC_EXPANSIONS REPLACEMENT_EXPANSIONS) limit
             else if status_code r = 500 \<and> limit > MINIMUM_PAGINATION_LIMIT
             then
               (let new_limit = limit div 2
                in Continue []
                     (str_replace url_suffix (''limit='' @ str_int limit)
                        (''limit='' @ str_int new_limit))
                     new_limit)
             else Raise [] (HTTPError (Some r)))
          else
            (case json_body r of
               None \<Rightarrow> Raise [] JSONDecodeError
             | Some p \<Rightarrow>
                 (case next_cursor U auto_paginate url_suffix p of
                    Inl e \<Rightarrow> Raise (results p) e
                  | Inr url_suffix' \<Rightarrow> Continue (results p) url_suffix' limit)))"

text \<open>
  The loop can run forever, so it runs on fuel: one unit per request. A run records what
  was yielded, each request with the limit in force, and how it ended. \<open>get k url\<close>
  is the answer to the \<open>k\<close>-th request.
\<close>

datatype run_status = Done | Raised error | OutOfFuel

record run =
  yielded :: "json list"
  requests :: "(string \<times> int) list"
  outcome :: run_status

fun paginate_loop ::
  "url_utils \<Rightarrow> bool \<Rightarrow> (nat \<Rightarrow> string \<Rightarrow> get_result) \<Rightarrow> nat \<Rightarrow> nat \<Rightarrow> string \<Rightarrow> int \<Rightarrow> run" where
  "paginate_loop U auto_paginate get 0 k url_suffix limit =
     \<lparr>yielded = [], requests = [], outcome = (if url_suffix = [] then Done else OutOfFuel)\<rparr>"
| "paginate_loop U auto_paginate get (Suc fuel) k url_suffix limit =
     (if url_suffix = [] then \<lparr>yielded = [], requests = [], outcome = Done\<rparr>
      else
        (case paginate_step U auto_paginate url_suffix limit (get k url_suffix) of
           Raise ys e \<Rightarrow>
             \<lparr>yielded = ys, requests = [(url_suffix, limit)], outcome = Raised e\<rparr>
         | Continue ys url_suffix' limit' \<Rightarrow>
             (let rest = paginate_loop U auto_paginate get fuel (Suc k) url_suffix' limit'
              in \<lparr>yielded = ys @ yielded rest,
                  requests = (url_suffix, limit) # requests rest,
                  outcome = outcome rest\<rparr>)))"

text \<open>\<^verbatim>\<open>if not limit: limit = _DEFAULT_PAGINATION_LIMIT\<close>\<close>

definition first_limit :: "int option \<Rightarrow> int" where
  "first_limit limit =
     (case limit of 
        None \<Rightarrow> DEFAULT_PAGINATION_LIMIT
      | Some l \<Rightarrow> if l = 0 then DEFAULT_PAGINATION_LIMIT else l)"

definition paginate_url ::
  "url_utils \<Rightarrow> bool \<Rightarrow> (nat \<Rightarrow> string \<Rightarrow> get_result) \<Rightarrow> nat \<Rightarrow> string \<Rightarrow> int option \<Rightarrow> run" where
  "paginate_url U auto_paginate get fuel url_suffix limit =
     (let limit' = first_limit limit;
          connection_char = (if contains ''?'' url_suffix then ''&'' else ''?'')
      in paginate_loop U auto_paginate get fuel 0
           (url_suffix @ connection_char @ ''limit='' @ str_int limit') limit')"

text \<open>Answers of the server for the worked examples.\<close>

definition ok_page :: "json list \<Rightarrow> string \<Rightarrow> get_result" where
  "ok_page rs nxt =
     GetResponse \<lparr>status_code = 200, body_text = [], headers = Some (\<lambda>h. None),
                  json_body = Some \<lparr>results = rs, next_link = nxt\<rparr>\<rparr>"



definition empty_page_with_cursor :: "nat \<Rightarrow> string \<Rightarrow> get_result" where
  "empty_page_with_cursor k url =
     (if k = 0 then ok_page [] ''rest/api/search/user?cql=type=user&start=50&limit=1000''
      else ok_page [] [])"

section \<open>The nested-expansion resolver: \<^verbatim>\<open>_traverse_and_update\<close>\<close>

text \<open>
  \<^verbatim>\<open>data.get("_links", {}).get("next")\<close> on a mapping: a \<^verbatim>\<open>_links\<close> entry that is
  not a mapping has no \<^verbatim>\<open>get\<close>; a missing entry gives \<^verbatim>\<open>None\<close>.
\<close>

definition next_url_of :: "(string \<times> json) list \<Rightarrow> error + json" where
  "next_url_of d =
     (case map_of d ''_links'' of
        None \<Rightarrow> Inr JNull
      | Some (JDict links) \<Rightarrow> Inr (case map_of links ''next'' of None \<Rightarrow> JNull | Some v \<Rightarrow> v)
      | Some _ \<Rightarrow> Inl AttributeError)"

fun dict_set :: "string \<Rightarrow> json \<Rightarrow> (string \<times> json) list \<Rightarrow> (string \<times> json) list" where
  "dict_set k v [] = [(k, v)]"
| "dict_set k v ((k', v') # kvs) =
     (if k' = k then (k, v) # kvs else (k', v') # dict_set k v kvs)"

text \<open>
  \<^verbatim>\<open>data["results"].extend(self._paginate_url(next_url))\<close>, the key being present.
  \<open>fetch\<close> stands for the records the paginating fetcher yields from \<open>next_url\<close>, or the
  error it raises; it threads the state of the server. Only a list has \<^verbatim>\<open>extend\<close>.
\<close>

definition extend_results ::
  "(json \<Rightarrow> 's \<Rightarrow> (error + json list) \<times> 's) \<Rightarrow> json \<Rightarrow> (string \<times> json) list \<Rightarrow> 's
     \<Rightarrow> (error + (string \<times> json) list) \<times> 's" where
  "extend_results fetch next_url d s =
     (case map_of d ''results'' of
        Some (JList rs) \<Rightarrow>
          (case fetch next_url s of
             (Inl e, s') \<Rightarrow> (Inl e, s')
           | (Inr fetched, s') \<Rightarrow> (Inr (dict_set ''results'' (JList (rs @ fetched)) d), s'))
      | _ \<Rightarrow> (Inl AttributeError, s))"

text \<open>A \<^verbatim>\<open>for\<close> loop that applies \<open>f\<close> to each item in turn and stops at the first error.\<close>

fun traverse_each ::
  "(json \<Rightarrow> 's \<Rightarrow> ((error + json) \<times> 's) option) \<Rightarrow> json list \<Rightarrow> 's
     \<Rightarrow> ((error + json list) \<times> 's) option" where
  "traverse_each f [] s = Some (Inr [], s)"
| "traverse_each f (x # xs) s =
     (case f x s of
        None \<Rightarrow> None
      | Some (Inl e, s1) \<Rightarrow> Some (Inl e, s1)
      | Some (Inr y, s1) \<Rightarrow>
          (case traverse_each f xs s1 of
             None \<Rightarrow> None
           | Some (Inl e, s2) \<Rightarrow> Some (Inl e, s2)
           | Some (Inr ys, s2) \<Rightarrow> Some (Inr (y # ys), s2)))"

text \<open>
  The recursion follows the records that were fetched, so it is not structural: the
  fuel bounds the depth of the recursion, and \<open>None\<close> is a traversal that needs a larger bound. The
  function returns the record as the in-place updates leave it.
\<close>

fun traverse_and_update ::
  "(json \<Rightarrow> 's \<Rightarrow> (error + json list) \<times> 's) \<Rightarrow> nat \<Rightarrow> json \<Rightarrow> 's
     \<Rightarrow> ((error + json) \<times> 's) option" where
  "traverse_and_update fetch 0 data s = None"
| "traverse_and_update fetch (Suc fuel) data s =
     (case data of
        JDict d \<Rightarrow>
          (case next_url_of d of
             Inl e \<Rightarrow> Some (Inl e, s)
           | Inr next_url \<Rightarrow>
               (case (if truthy next_url \<and> map_of d ''results'' \<noteq> None
                      then extend_results fetch next_url d s
                      else (Inr d, s)) of
                  (Inl e, s1) \<Rightarrow> Some (Inl e, s1)
                | (Inr d1, s1) \<Rightarrow>
                    (case traverse_each (\<lambda>v t. traverse_and_update fetch fuel v t)
                            (map snd d1) s1 of
                       None \<Rightarrow> None
                     | Some (Inl e, s2) \<Rightarrow> Some (Inl e, s2)
                     | Some (Inr vs, s2) \<Rightarrow> Some (Inr (JDict (zip (map fst d1) vs)), s2))))
      | JList xs \<Rightarrow>
          (case traverse_each (\<lambda>v t. traverse_and_update fetch fuel v t) xs s of
             None \<Rightarrow> None
           | Some (Inl e, s1) \<Rightarrow> Some (Inl e, s1)
           | Some (Inr ys, s1) \<Rightarrow> Some (Inr (JList ys), s1))
      | _ \<Rightarrow> Some (Inr data, s))"

text \<open>
  A record with nothing left to fetch: no mapping in it has both a \<^verbatim>\<open>results\<close> key and
  a truthy \<^verbatim>\<open>_links.next\<close>. \<open>depth\<close> is the depth of recursion the record needs.
\<close>

fun resolved :: "json \<Rightarrow> bool" where
  "resolved (JDict d) =
     ((case next_url_of d of
         Inl e \<Rightarrow> False
       | Inr next_url \<Rightarrow> \<not> (truthy next_url \<and> map_of d ''results'' \<noteq> None))
      \<and> (\<forall>kv \<in> set d. resolved (snd kv)))"
| "resolved (JList xs) = (\<forall>x \<in> set xs. resolved x)"
| "resolved v = True"

fun depth :: "json \<Rightarrow> nat" where
  "depth (JDict d) = Suc (foldr max (map (\<lambda>kv. depth (snd kv)) d) 0)"
| "depth (JList xs) = Suc (foldr max (map depth xs) 0)"
| "depth v = 1"

text \<open>
  What a run may do to a record: a list may gain items at its end, a mapping keeps its
  keys, and the items and values are changed in the same way; nothing is removed.
\<close>

inductive extended :: "json \<Rightarrow> json \<Rightarrow> bool" where
  same: "extended v v"
| in_list: "list_all2 extended xs ys \<Longrightarrow> extended (JList xs) (JList (ys @ zs))"
| in_dict: "map fst d = map fst d' \<Longrightarrow> list_all2 extended (map snd d) (map snd d')
     \<Longrightarrow> extended (JDict d) (JDict d')"

text \<open>
  A comment list cut short by the server, with its continuation link, and a fetcher that
  answers every link with the one remaining comment and counts the fetches.
\<close>

definition truncated_comments :: json where
  "truncated_comments =
     JDict [(''results'', JList [JStr ''first'']),
            (''_links'', JDict [(''next'', JStr ''/rest/api/content/1/child/comment?start=1'')])]"

definition one_more :: "json \<Rightarrow> nat \<Rightarrow> (error + json list) \<times> nat" where
  "one_more next_url fetched = (Inr [JStr ''second''], Suc fetched)"

section \<open>Connector validation: \<^verbatim>\<open>build_confluence_client\<close>\<close>

text \<open>The keyword arguments the two clients are constructed with.\<close>

record client =
  api_version :: string
  base_url :: string
  username :: "string option"
  password :: "string option"
  token :: "string option"
  max_backoff_retries :: nat
  max_backoff_seconds :: nat
  wrapped :: bool

definition rstrip_slash :: "string \<Rightarrow> string" where
  "rstrip_slash s = rev (dropWhile (\<lambda>c. c = CHR ''/'') (rev s))"

text \<open>
  \<^verbatim>\<open>credentials[key]\<close> raises \<^verbatim>\<open>KeyError\<close> for a missing key. The two constructor calls
  differ in the retry settings and in the class: \<open>wrapped\<close> is the production class, whose
  methods carry the retry wrapper.
\<close>

definition make_client ::
  "(string \<Rightarrow> string option) \<Rightarrow> bool \<Rightarrow> string \<Rightarrow> nat \<Rightarrow> nat \<Rightarrow> bool \<Rightarrow> error + client" where
  "make_client credentials is_cloud wiki_base retries seconds production =
     (if is_cloud
      then
        (case credentials ''confluence_username'' of
           None \<Rightarrow> Inl KeyError
         | Some user \<Rightarrow>
             (case credentials ''confluence_access_token'' of
                None \<Rightarrow> Inl KeyError
              | Some tok \<Rightarrow>
                  Inr \<lparr>api_version = ''cloud'', base_url = rstrip_slash wiki_base,
                       username = Some user, password = Some tok, token = None,
                       max_backoff_retries = retries, max_backoff_seconds = seconds,
                       wrapped = production\<rparr>))
      else
        (case credentials ''confluence_access_token'' of
           None \<Rightarrow> Inl KeyError
         | Some tok \<Rightarrow>
             Inr \<lparr>api_version = ''latest'', base_url = rstrip_slash wiki_base,
                  username = None, password = None, token = Some tok,
                  max_backoff_retries = retries, max_backoff_seconds = seconds,
                  wrapped = production\<rparr>))"

text \<open>
  \<open>get_all_spaces\<close> is the answer to \<^verbatim>\<open>get_all_spaces(limit=1)\<close> on the client with
  minimal retries: the value the library returns, or the error it raises.
\<close>

definition validate_connector_configuration ::
  "(client \<Rightarrow> error + json) \<Rightarrow> (string \<Rightarrow> string option) \<Rightarrow> bool \<Rightarrow> string \<Rightarrow> error + unit" where
  "validate_connector_configuration get_all_spaces credentials is_cloud wiki_base =
     (case make_client credentials is_cloud wiki_base 6 10 False of
        Inl e \<Rightarrow> Inl e
      | Inr confluence_client_with_minimal_retries \<Rightarrow>
          (case get_all_spaces confluence_client_with_minimal_retries of
             Inl e \<Rightarrow> Inl e
           | Inr spaces \<Rightarrow> if \<not> truthy spaces then Inl RuntimeError else Inr ()))"

definition build_confluence_client ::
  "(client \<Rightarrow> error + json) \<Rightarrow> (string \<Rightarrow> string option) \<Rightarrow> bool \<Rightarrow> string \<Rightarrow> error + client" where
  "build_confluence_client get_all_spaces credentials is_cloud wiki_base =
     (case validate_connector_configuration get_all_spaces credentials is_cloud wiki_base of
        Inl e \<Rightarrow> Inl (ConnectorValidationError e)
      | Inr u \<Rightarrow> make_client credentials is_cloud wiki_base 10 60 True)"

text \<open>
  The answer of a site on which the credentials see no space: the mapping the library
  returns, with an empty \<^verbatim>\<open>results\<close> list.
\<close>

definition no_spaces :: json where
  "no_spaces =
     JDict [(''results'', JList []), (''start'', JNum 0), (''limit'', JNum 1),
            (''size'', JNum 0)]"

definition server_credentials :: "string \<Rightarrow> string option" where
  "server_credentials k = (if k = ''confluence_access_token'' then Some ''secret'' else None)"

section \<open>Properties of the backoff classifier\<close>

lemma handle_http_error_rate_limited:
  assumes "headers r = Some hs" and "rate_limited r"
  shows "handle_http_error py_int (Some r) attempt now =
     Inr \<lceil>now + of_int
       (case (case hs ''Retry-After'' of None \<Rightarrow> None | Some h \<Rightarrow> py_int h) of
          Some x \<Rightarrow> max 2 (min x 60)
        | None \<Rightarrow> min (5 * 2 ^ attempt) 60)\<rceil>"
  using assms
  by (auto simp: handle_http_error_def rate_limited_def Let_def split: option.splits)

text \<open>
  Claim C2. A failure classified as a rate limit (status 429, or the rate-limit phrase
  in the lowercased body) whose \<^verbatim>\<open>Retry-After\<close> header is present and reads as the
  integer \<open>X\<close> resumes after \<open>clamp(X, 2, 60)\<close> seconds: below 2 the delay is 2, above 60
  it is 60, otherwise it is \<open>X\<close> itself. The resume time is the clock plus that delay,
  rounded up.
\<close>

theorem retry_after_delay_is_clamped:
  assumes "headers r = Some hs"
    and "status_code r = 429
         \<or> contains (str_lower ''Rate limit exceeded'') (str_lower (body_text r))"
    and "hs ''Retry-After'' = Some h"
    and "py_int h = Some X"
  shows "handle_http_error py_int (Some r) attempt now =
     Inr \<lceil>now + of_int (if X < 2 then 2 else if X > 60 then 60 else X)\<rceil>"
  using assms
  by (auto simp: handle_http_error_def Let_def)

theorem retry_after_delay_is_clamped_witness:
  "handle_http_error decimal_int
     (Some \<lparr>status_code = 429, body_text = ''slow down'',
            headers = Some (\<lambda>k. if k = ''Retry-After'' then Some ''120'' else None),
            json_body = None\<rparr>) 0 (1 / 2) = Inr 61
   \<and> handle_http_error decimal_int
     (Some \<lparr>status_code = 503, body_text = ''Rate Limit Exceeded'',
            headers = Some (\<lambda>k. if k = ''Retry-After'' then Some ''1'' else None),
            json_body = None\<rparr>) 3 10 = Inr 12"
proof -
  let ?hs = "\<lambda>v k. if k = ''Retry-After'' then Some v else (None :: string option)"
  let ?r1 = "\<lparr>status_code = 429, body_text = ''slow down'',
              headers = Some (?hs ''120''), json_body = None\<rparr>"
  let ?r2 = "\<lparr>status_code = 503, body_text = ''Rate Limit Exceeded'',
              headers = Some (?hs ''1''), json_body = None\<rparr>"
  have p120: "decimal_int ''120'' = Some 120"
    by (simp add: decimal_int_def digit_val_def)
  have p1: "decimal_int ''1'' = Some 1"
    by (simp add: decimal_int_def digit_val_def)
  have c2: "status_code ?r2 = 429
      \<or> contains (str_lower ''Rate limit exceeded'') (str_lower (body_text ?r2))"
    by (simp add: str_lower_def lower_char_def)
  have a: "handle_http_error decimal_int (Some ?r1) 0 (1 / 2) = Inr 61"
    using retry_after_delay_is_clamped
      [of ?r1 "?hs ''120''" "''120''" decimal_int 120 0 "1 / 2"] p120
    by simp
  have b: "handle_http_error decimal_int (Some ?r2) 3 10 = Inr 12"
    using retry_after_delay_is_clamped
      [of ?r2 "?hs ''1''" "''1''" decimal_int 1 3 10, OF _ c2] p1
    by simp
  from a b show ?thesis by simp
qed

text \<open>
  Claim C3. A failure classified as a rate limit with no \<^verbatim>\<open>Retry-After\<close> header, or
  with one that does not read as an integer, resumes at the 0-based attempt \<open>n\<close> after
  \<open>min(5 * 2^n, 60)\<close> seconds.
\<close>

theorem exponential_backoff_delay:
  assumes "headers r = Some hs"
    and "status_code r = 429
         \<or> contains (str_lower ''Rate limit exceeded'') (str_lower (body_text r))"
    and "hs ''Retry-After'' = None \<or> (\<exists>h. hs ''Retry-After'' = Some h \<and> py_int h = None)"
  shows "handle_http_error py_int (Some r) n now = Inr \<lceil>now + of_int (min (5 * 2 ^ n) 60)\<rceil>"
  using assms
  by (auto simp: handle_http_error_def Let_def)

theorem exponential_backoff_delay_witness:
  "handle_http_error decimal_int
     (Some \<lparr>status_code = 429, body_text = [], headers = Some (\<lambda>k. None),
            json_body = None\<rparr>) 2 (1 / 4) = Inr 21
   \<and> handle_http_error decimal_int
     (Some \<lparr>status_code = 429, body_text = [],
            headers = Some (\<lambda>k. if k = ''Retry-After'' then Some ''soon'' else None),
            json_body = None\<rparr>) 4 0 = Inr 60"
proof -
  let ?r1 = "\<lparr>status_code = 429, body_text = [], headers = Some (\<lambda>k. None),
              json_body = None\<rparr>"
  let ?hs = "\<lambda>k. if k = ''Retry-After'' then Some ''soon'' else (None :: string option)"
  let ?r2 = "\<lparr>status_code = 429, body_text = [], headers = Some ?hs, json_body = None\<rparr>"
  have soon: "decimal_int ''soon'' = None"
    by (simp add: decimal_int_def digit_val_def)
  have a: "handle_http_error decimal_int (Some ?r1) 2 (1 / 4) = Inr 21"
    using exponential_backoff_delay [of ?r1 "\<lambda>k. None" decimal_int 2 "1 / 4"]
    by simp
  have b: "handle_http_error decimal_int (Some ?r2) 4 0 = Inr 60"
    using exponential_backoff_delay [of ?r2 ?hs decimal_int 4 0] soon
    by simp
  from a b show ?thesis by simp
qed

section \<open>Properties of the retry wrapper\<close>

lemma ncalls_invoke: "invoke call w = (out, w1) \<Longrightarrow> ncalls w1 = Suc (ncalls w)"
  by (auto simp: invoke_def split: prod.splits)

lemma retry_loop_ncalls:
  "ncalls (snd (retry_loop py_int call timeout_at atts w)) \<le> ncalls w + length atts"
proof (induction atts arbitrary: w)
  case Nil
  show ?case by simp
next
  case (Cons attempt rest)
  show ?case
  proof (cases "clock w > timeout_at")
    case True
    then show ?thesis by simp
  next
    case False
    obtain out w1 where inv: "invoke call w = (out, w1)" by (cases "invoke call w")
    have n1: "ncalls w1 = Suc (ncalls w)" using inv by (rule ncalls_invoke)
    have step: "\<And>c. ncalls (snd (retry_loop py_int call timeout_at rest (w1\<lparr>clock := c\<rparr>)))
        \<le> ncalls w + length (attempt # rest)"
    proof -
      fix c
      have "ncalls (snd (retry_loop py_int call timeout_at rest (w1\<lparr>clock := c\<rparr>)))
          \<le> ncalls (w1\<lparr>clock := c\<rparr>) + length rest"
        by (rule Cons.IH)
      then show "ncalls (snd (retry_loop py_int call timeout_at rest (w1\<lparr>clock := c\<rparr>)))
        \<le> ncalls w + length (attempt # rest)" using n1 by simp
    qed
    show ?thesis using False inv n1 step
      by (auto split: sum.splits error.splits)
  qed
qed

lemma sleep_until_of_int: "sleep_until d (of_int k) = of_int (max d k)"
proof (induction "nat (d - k)" arbitrary: k)
  case 0
  then show ?case by (subst sleep_until.simps) auto
next
  case (Suc n)
  then have lt: "k < d" by linarith
  from Suc have "n = nat (d - (k + 1))" by linarith
  then have "sleep_until d (of_int (k + 1)) = of_int (max d (k + 1))" by (rule Suc.hyps(1))
  with lt show ?case by (subst sleep_until.simps) (auto simp: add.commute)
qed

lemma upt_5: "[0..<5] = [0, 1, 2, 3, 4]"
  by (simp add: upt_rec)

lemma handle_http_error_retryable:
  "retryable (Inl (HTTPError e)) = (\<exists>t. handle_http_error py_int e attempt now = Inr t)"
  by (auto simp: handle_http_error_def retryable_def rate_limited_def Let_def
      split: option.splits)

lemma retry_loop_started:
  "\<exists>new. started (snd (retry_loop py_int call timeout_at atts w)) = started w @ new
     \<and> length new + ncalls w = ncalls (snd (retry_loop py_int call timeout_at atts w))
     \<and> (\<forall>t \<in> set new. t \<le> timeout_at)"
proof (induction atts arbitrary: w)
  case Nil
  show ?case by simp
next
  case (Cons attempt rest)
  show ?case
  proof (cases "clock w > timeout_at")
    case True
    then show ?thesis by simp
  next
    case False
    obtain d out where c: "call (ncalls w) = (d, out)" by (cases "call (ncalls w)")
    let ?w1 = "w\<lparr>clock := clock w + d, ncalls := Suc (ncalls w),
                 started := started w @ [clock w]\<rparr>"
    have inv: "invoke call w = (out, ?w1)" using c by (simp add: invoke_def)
    have here: "\<exists>new. started ?w1 = started w @ new \<and> length new + ncalls w = ncalls ?w1
        \<and> (\<forall>t \<in> set new. t \<le> timeout_at)"
      using False by simp
    have step: "\<exists>new. started (snd (retry_loop py_int call timeout_at rest (?w1\<lparr>clock := x\<rparr>)))
          = started w @ new
        \<and> length new + ncalls w
          = ncalls (snd (retry_loop py_int call timeout_at rest (?w1\<lparr>clock := x\<rparr>)))
        \<and> (\<forall>t \<in> set new. t \<le> timeout_at)" for x
    proof -
      from Cons.IH [of "?w1\<lparr>clock := x\<rparr>"] obtain new where
        n: "started (snd (retry_loop py_int call timeout_at rest (?w1\<lparr>clock := x\<rparr>)))
              = started (?w1\<lparr>clock := x\<rparr>) @ new"
           "length new + ncalls (?w1\<lparr>clock := x\<rparr>)
              = ncalls (snd (retry_loop py_int call timeout_at rest (?w1\<lparr>clock := x\<rparr>)))"
           "\<forall>t \<in> set new. t \<le> timeout_at"
        by blast
      show ?thesis
      proof (intro exI conjI)
        show "started (snd (retry_loop py_int call timeout_at rest (?w1\<lparr>clock := x\<rparr>)))
            = started w @ (clock w # new)" using n(1) by simp
        show "length (clock w # new) + ncalls w
            = ncalls (snd (retry_loop py_int call timeout_at rest (?w1\<lparr>clock := x\<rparr>)))"
          using n(2) by simp
        show "\<forall>t \<in> set (clock w # new). t \<le> timeout_at" using n(3) False by simp
      qed
    qed
    show ?thesis
    proof (cases out)
      case (Inr v)
      with False inv here show ?thesis by simp
    next
      case (Inl err)
      show ?thesis
      proof (cases err)
        case (HTTPError e)
        show ?thesis
        proof (cases "handle_http_error py_int e attempt (clock ?w1)")
          case (Inl err')
          with False inv \<open>out = Inl err\<close> HTTPError here show ?thesis by simp
        next
          case (Inr delay_until)
          with False inv \<open>out = Inl err\<close> HTTPError
            step [of "sleep_until delay_until (clock ?w1)"]
          show ?thesis by simp
        qed
      next
        case AttributeError
        with False inv \<open>out = Inl err\<close> here step [of "clock ?w1 + 5"]
        show ?thesis by (cases "attempt = 4") simp_all
      qed (use False inv \<open>out = Inl err\<close> here in simp_all)
    qed
  qed
qed

lemma retry_loop_no_invocation:
  assumes "atts \<noteq> []"
    and "ncalls (snd (retry_loop py_int call timeout_at atts w)) = ncalls w"
  shows "retry_loop py_int call timeout_at atts w = (Inl TimeoutError, w) \<and> timeout_at < clock w"
proof (cases atts)
  case Nil
  with assms(1) show ?thesis by simp
next
  case (Cons attempt rest)
  show ?thesis
  proof (cases "clock w > timeout_at")
    case True
    with Cons show ?thesis by simp
  next
    case False
    obtain d out where c: "call (ncalls w) = (d, out)" by (cases "call (ncalls w)")
    let ?w1 = "w\<lparr>clock := clock w + d, ncalls := Suc (ncalls w),
                 started := started w @ [clock w]\<rparr>"
    have inv: "invoke call w = (out, ?w1)" using c by (simp add: invoke_def)
    have later: "Suc (ncalls w)
        \<le> ncalls (snd (retry_loop py_int call timeout_at rest (?w1\<lparr>clock := x\<rparr>)))" for x
      using retry_loop_started [of py_int call timeout_at rest "?w1\<lparr>clock := x\<rparr>"]
      by auto
    have "Suc (ncalls w) \<le> ncalls (snd (retry_loop py_int call timeout_at atts w))"
    proof (cases out)
      case (Inr v)
      with False inv Cons show ?thesis by simp
    next
      case (Inl err)
      show ?thesis
      proof (cases err)
        case (HTTPError e)
        show ?thesis
        proof (cases "handle_http_error py_int e attempt (clock ?w1)")
          case (Inl err')
          with False inv Cons \<open>out = Inl err\<close> HTTPError show ?thesis by simp
        next
          case (Inr delay_until)
          with False inv Cons \<open>out = Inl err\<close> HTTPError
            later [of "sleep_until delay_until (clock ?w1)"]
          show ?thesis by simp
        qed
      next
        case AttributeError
        with False inv Cons \<open>out = Inl err\<close> later [of "clock ?w1 + 5"]
        show ?thesis by (cases "attempt = 4") simp_all
      qed (use False inv Cons \<open>out = Inl err\<close> in simp_all)
    qed
    with assms(2) show ?thesis by simp
  qed
qed

lemma retry_loop_early_stop:
  assumes "4 \<notin> set (butlast atts)"
    and "retry_loop py_int call timeout_at atts w = (res, w')"
    and "ncalls w < ncalls w'"
    and "ncalls w' < ncalls w + length atts"
    and "retryable (snd (call (ncalls w' - 1)))"
  shows "res = Inl TimeoutError \<and> timeout_at < clock w'"
  using assms
proof (induction atts arbitrary: w)
  case Nil
  then show ?case by simp
next
  case (Cons attempt rest)
  have not_timed_out: "\<not> clock w > timeout_at"
  proof
    assume "clock w > timeout_at"
    with Cons.prems(2) have "w' = w" by simp
    with Cons.prems(3) show False by simp
  qed
  obtain d out where c: "call (ncalls w) = (d, out)" by (cases "call (ncalls w)")
  let ?w1 = "w\<lparr>clock := clock w + d, ncalls := Suc (ncalls w),
               started := started w @ [clock w]\<rparr>"
  have inv: "invoke call w = (out, ?w1)" using c by (simp add: invoke_def)
  have rest_ne: "rest \<noteq> []" using Cons.prems(3,4) by auto
  then have rest4: "4 \<notin> set (butlast rest)" and att: "attempt \<noteq> 4"
    using Cons.prems(1) by auto
  have continue: "res = Inl TimeoutError \<and> timeout_at < clock w'"
    if run: "retry_loop py_int call timeout_at rest (?w1\<lparr>clock := x\<rparr>) = (res, w')" for x
  proof (cases "ncalls w' = ncalls (?w1\<lparr>clock := x\<rparr>)")
    case True
    with run have "ncalls (snd (retry_loop py_int call timeout_at rest (?w1\<lparr>clock := x\<rparr>)))
        = ncalls (?w1\<lparr>clock := x\<rparr>)" by simp
    from retry_loop_no_invocation [OF rest_ne this] run show ?thesis by auto
  next
    case False
    from retry_loop_started [of py_int call timeout_at rest "?w1\<lparr>clock := x\<rparr>"] run
    have "ncalls (?w1\<lparr>clock := x\<rparr>) \<le> ncalls w'" by auto
    with False have lt: "ncalls (?w1\<lparr>clock := x\<rparr>) < ncalls w'" by simp
    have up: "ncalls w' < ncalls (?w1\<lparr>clock := x\<rparr>) + length rest"
      using Cons.prems(4) by simp
    from Cons.IH [OF rest4 run lt up Cons.prems(5)] show ?thesis .
  qed
  have last_out: "retryable out" if "w' = ?w1"
  proof -
    from that have "ncalls w' - 1 = ncalls w" by simp
    with Cons.prems(5) c show ?thesis by simp
  qed
  show ?case
  proof (cases out)
    case (Inr v)
    with not_timed_out inv Cons.prems(2) have "w' = ?w1" by simp
    from last_out [OF this] Inr show ?thesis by (simp add: retryable_def)
  next
    case (Inl err)
    show ?thesis
    proof (cases err)
      case (HTTPError e)
      show ?thesis
      proof (cases "handle_http_error py_int e attempt (clock ?w1)")
        case (Inl err')
        with not_timed_out inv Cons.prems(2) \<open>out = Inl err\<close> HTTPError
        have "w' = ?w1" by simp
        from last_out [OF this] \<open>out = Inl err\<close> HTTPError
        have "\<exists>t. handle_http_error py_int e attempt (clock ?w1) = Inr t"
          by (simp add: handle_http_error_retryable [of e py_int attempt "clock ?w1"])
        with Inl show ?thesis by simp
      next
        case (Inr delay_until)
        with not_timed_out inv Cons.prems(2) \<open>out = Inl err\<close> HTTPError
        have "retry_loop py_int call timeout_at rest
            (?w1\<lparr>clock := sleep_until delay_until (clock ?w1)\<rparr>) = (res, w')" by simp
        then show ?thesis by (rule continue)
      qed
    next
      case AttributeError
      with not_timed_out inv Cons.prems(2) \<open>out = Inl err\<close> att
      have "retry_loop py_int call timeout_at rest (?w1\<lparr>clock := clock ?w1 + 5\<rparr>) = (res, w')"
        by simp
      then show ?thesis by (rule continue)
    next
      case TimeoutError
      with not_timed_out inv Cons.prems(2) \<open>out = Inl err\<close> have "w' = ?w1" by simp
      from last_out [OF this] \<open>out = Inl err\<close> TimeoutError show ?thesis
        by (simp add: retryable_def)
    next
      case ValueError
      with not_timed_out inv Cons.prems(2) \<open>out = Inl err\<close> have "w' = ?w1" by simp
      from last_out [OF this] \<open>out = Inl err\<close> ValueError show ?thesis
        by (simp add: retryable_def)
    next
      case KeyError
      with not_timed_out inv Cons.prems(2) \<open>out = Inl err\<close> have "w' = ?w1" by simp
      from last_out [OF this] \<open>out = Inl err\<close> KeyError show ?thesis
        by (simp add: retryable_def)
    next
      case RuntimeError
      with not_timed_out inv Cons.prems(2) \<open>out = Inl err\<close> have "w' = ?w1" by simp
      from last_out [OF this] \<open>out = Inl err\<close> RuntimeError show ?thesis
        by (simp add: retryable_def)
    next
      case JSONDecodeError
      with not_timed_out inv Cons.prems(2) \<open>out = Inl err\<close> have "w' = ?w1" by simp
      from last_out [OF this] \<open>out = Inl err\<close> JSONDecodeError show ?thesis
        by (simp add: retryable_def)
    next
      case (ConnectorValidationError cause)
      with not_timed_out inv Cons.prems(2) \<open>out = Inl err\<close> have "w' = ?w1" by simp
      from last_out [OF this] \<open>out = Inl err\<close> ConnectorValidationError show ?thesis
        by (simp add: retryable_def)
    next
      case (OtherError msg)
      with not_timed_out inv Cons.prems(2) \<open>out = Inl err\<close> have "w' = ?w1" by simp
      from last_out [OF this] \<open>out = Inl err\<close> OtherError show ?thesis
        by (simp add: retryable_def)
    qed
  qed
qed

text \<open>
  Claim C4. The wrapper invokes the wrapped call at most 5 times, and every invocation
  starts no later than 600 seconds after the clock reading at the wrapper's start. When
  the wrapper stops before its fifth invocation although the last invocation failed in a
  way it retries, it has raised \<open>TimeoutError\<close>, which is not the HTTP error of a rate
  limit, and the clock is more than 600 seconds past the start. So past the deadline no
  attempt starts, whatever attempts remain, and the timeout is not raised before it.
\<close>

theorem retry_wrapper_budget:
  assumes "wrapped_call py_int call w = (res, w')"
  shows "ncalls w' \<le> ncalls w + 5
     \<and> (\<exists>new. started w' = started w @ new \<and> length new + ncalls w = ncalls w'
           \<and> (\<forall>t \<in> set new. t \<le> clock w + 600))
     \<and> (ncalls w < ncalls w' \<and> ncalls w' < ncalls w + 5
           \<and> retryable (snd (call (ncalls w' - 1)))
         \<longrightarrow> res = Inl TimeoutError \<and> clock w + 600 < clock w')"
proof -
  from assms have run: "retry_loop py_int call (clock w + 600) [0..<5] w = (res, w')"
    by (simp add: wrapped_call_def)
  have a: "ncalls w' \<le> ncalls w + 5"
    using retry_loop_ncalls [of py_int call "clock w + 600" "[0..<5]" w] run by simp
  have b: "\<exists>new. started w' = started w @ new \<and> length new + ncalls w = ncalls w'
      \<and> (\<forall>t \<in> set new. t \<le> clock w + 600)"
    using retry_loop_started [of py_int call "clock w + 600" "[0..<5]" w] run by simp
  have c: "res = Inl TimeoutError \<and> clock w + 600 < clock w'"
    if "ncalls w < ncalls w'" and "ncalls w' < ncalls w + 5"
      and "retryable (snd (call (ncalls w' - 1)))"
  proof (rule retry_loop_early_stop [OF _ run that(1) _ that(3)])
    show "4 \<notin> set (butlast [0..<5])" by (simp add: upt_5)
    show "ncalls w' < ncalls w + length [0..<5]" using that(2) by simp
  qed
  from a b c show ?thesis by blast
qed

lemma slow_rate_limited_call_run:
  "wrapped_call decimal_int slow_rate_limited_call \<lparr>clock = 0, ncalls = 0, started = []\<rparr>
     = (Inl TimeoutError, \<lparr>clock = 606, ncalls = 1, started = [0]\<rparr>)"
proof -
  have s: "sleep_until 606 601 = 606"
    using sleep_until_of_int [of 606 601] by simp
  show ?thesis
    by (simp add: wrapped_call_def upt_5 invoke_def slow_rate_limited_call_def
        handle_http_error_def s)
qed

theorem retry_wrapper_budget_witness:
  "fst (wrapped_call decimal_int slow_rate_limited_call
          \<lparr>clock = 0, ncalls = 0, started = []\<rparr>) = Inl TimeoutError
   \<and> snd (wrapped_call decimal_int slow_rate_limited_call
          \<lparr>clock = 0, ncalls = 0, started = []\<rparr>)
       = \<lparr>clock = 606, ncalls = 1, started = [0]\<rparr>"
proof -
  let ?w = "\<lparr>clock = 0, ncalls = 0, started = []\<rparr>"
  let ?w' = "\<lparr>clock = 606, ncalls = 1, started = [0]\<rparr>"
  let ?res = "fst (wrapped_call decimal_int slow_rate_limited_call ?w)"
  have w': "snd (wrapped_call decimal_int slow_rate_limited_call ?w) = ?w'"
    by (simp add: slow_rate_limited_call_run)
  then have run: "wrapped_call decimal_int slow_rate_limited_call ?w = (?res, ?w')"
    by (metis prod.collapse)
  have r: "retryable (snd (slow_rate_limited_call (ncalls ?w' - 1)))"
    by (simp add: slow_rate_limited_call_def retryable_def rate_limited_def)
  from retry_wrapper_budget [OF run] r have "?res = Inl TimeoutError" by simp
  with w' show ?thesis by simp
qed

lemma retry_loop_all_rate_limited:
  assumes "\<And>i. i < length atts \<Longrightarrow>
      \<exists>d r hs. call (ncalls w + i) = (d, Inl (HTTPError (Some r)))
        \<and> headers r = Some hs \<and> rate_limited r"
  shows "(fst (retry_loop py_int call timeout_at atts w) = Inr None
          \<and> ncalls (snd (retry_loop py_int call timeout_at atts w)) = ncalls w + length atts)
       \<or> (fst (retry_loop py_int call timeout_at atts w) = Inl TimeoutError
          \<and> ncalls (snd (retry_loop py_int call timeout_at atts w)) < ncalls w + length atts)"
  using assms
proof (induction atts arbitrary: w)
  case Nil
  show ?case by simp
next
  case (Cons attempt rest)
  show ?case
  proof (cases "clock w > timeout_at")
    case True
    then show ?thesis by simp
  next
    case False
    from Cons.prems [of 0] obtain d r hs where
      c: "call (ncalls w) = (d, Inl (HTTPError (Some r)))" and
      h: "headers r = Some hs" and rl: "rate_limited r" by auto
    let ?w1 = "w\<lparr>clock := clock w + d, ncalls := Suc (ncalls w),
                 started := started w @ [clock w]\<rparr>"
    have inv: "invoke call w = (Inl (HTTPError (Some r)), ?w1)"
      using c by (simp add: invoke_def)
    from handle_http_error_rate_limited [OF h rl, of py_int attempt "clock ?w1"]
    obtain t where t: "handle_http_error py_int (Some r) attempt (clock ?w1) = Inr t" by blast
    let ?w2 = "?w1\<lparr>clock := sleep_until t (clock ?w1)\<rparr>"
    have unfold: "retry_loop py_int call timeout_at (attempt # rest) w
        = retry_loop py_int call timeout_at rest ?w2"
      using False inv t by simp
    have "\<And>i. i < length rest \<Longrightarrow>
      \<exists>d r hs. call (ncalls ?w2 + i) = (d, Inl (HTTPError (Some r)))
        \<and> headers r = Some hs \<and> rate_limited r"
    proof -
      fix i assume "i < length rest"
      then have "Suc i < length (attempt # rest)" by simp
      from Cons.prems [OF this] show "\<exists>d r hs. call (ncalls ?w2 + i) = (d, Inl (HTTPError (Some r)))
        \<and> headers r = Some hs \<and> rate_limited r" by simp
    qed
    from Cons.IH [OF this] show ?thesis
      unfolding unfold by auto
  qed
qed

text \<open>
  Claim C10. When all five attempts are made and each fails with an HTTP error classified
  as a rate limit, the wrapper returns \<^verbatim>\<open>None\<close> instead of raising: the last failure
  is not propagated. In the worked example the wrapper returns at clock 140, the end of
  the fifth backoff sleep.
\<close>

theorem exhausted_rate_limit_returns_None:
  assumes "\<And>i. i < 5 \<Longrightarrow>
      \<exists>d r hs. call (ncalls w + i) = (d, Inl (HTTPError (Some r)))
        \<and> headers r = Some hs \<and> rate_limited r"
    and "ncalls (snd (wrapped_call py_int call w)) = ncalls w + 5"
  shows "fst (wrapped_call py_int call w) = Inr None"
proof -
  have "\<And>i. i < length [0..<5] \<Longrightarrow>
      \<exists>d r hs. call (ncalls w + i) = (d, Inl (HTTPError (Some r)))
        \<and> headers r = Some hs \<and> rate_limited r"
    using assms(1) by simp
  then have "(fst (retry_loop py_int call (clock w + 600) [0..<5] w) = Inr None
          \<and> ncalls (snd (retry_loop py_int call (clock w + 600) [0..<5] w))
              = ncalls w + length [0..<5])
       \<or> (fst (retry_loop py_int call (clock w + 600) [0..<5] w) = Inl TimeoutError
          \<and> ncalls (snd (retry_loop py_int call (clock w + 600) [0..<5] w))
              < ncalls w + length [0..<5])"
    by (rule retry_loop_all_rate_limited)
  with assms(2) show ?thesis by (auto simp: wrapped_call_def)
qed

lemma rate_limited_call_run:
  "wrapped_call decimal_int rate_limited_call \<lparr>clock = 0, ncalls = 0, started = []\<rparr>
     = (Inr None, \<lparr>clock = 140, ncalls = 5, started = [0, 6, 17, 38, 79]\<rparr>)"
proof -
  have s: "sleep_until 6 1 = 6" "sleep_until 17 7 = 17" "sleep_until 38 18 = 38"
    "sleep_until 79 39 = 79" "sleep_until 140 80 = 140"
    using sleep_until_of_int [of 6 1] sleep_until_of_int [of 17 7]
      sleep_until_of_int [of 38 18] sleep_until_of_int [of 79 39]
      sleep_until_of_int [of 140 80] by simp_all
  show ?thesis
    by (simp add: wrapped_call_def upt_5 invoke_def rate_limited_call_def
        handle_http_error_def s)
qed

theorem exhausted_rate_limit_returns_None_witness:
  "fst (wrapped_call decimal_int rate_limited_call \<lparr>clock = 0, ncalls = 0, started = []\<rparr>) = Inr None
   \<and> snd (wrapped_call decimal_int rate_limited_call \<lparr>clock = 0, ncalls = 0, started = []\<rparr>)
       = \<lparr>clock = 140, ncalls = 5, started = [0, 6, 17, 38, 79]\<rparr>"
proof -
  let ?w = "\<lparr>clock = 0, ncalls = 0, started = []\<rparr>"
  have a: "\<And>i. i < 5 \<Longrightarrow>
      \<exists>d r hs. rate_limited_call (ncalls ?w + i) = (d, Inl (HTTPError (Some r)))
        \<and> headers r = Some hs \<and> rate_limited r"
    by (simp add: rate_limited_call_def rate_limited_def)
  have b: "ncalls (snd (wrapped_call decimal_int rate_limited_call ?w)) = ncalls ?w + 5"
    by (simp add: rate_limited_call_run)
  from exhausted_rate_limit_returns_None [of rate_limited_call ?w decimal_int, OF a b]
  show ?thesis by (simp add: rate_limited_call_run)
qed

section \<open>Properties of the paginating fetcher\<close>

lemmas string_eval =
  str_int_def str_nat.simps digit_char_def str_replace_def

lemmas cursor_eval =
  cursor_utils_def query_params_def key_value_def decimal_int_def digit_val_def

text \<open>
  Claim C1. When the cursor the server returns contains \<^verbatim>\<open>start\<close> and advances the
  start of the request just made by more than the number of results of the page, the
  next request is made with the start rewritten to the previous start plus the number of
  results: in the server's cursor or, under \<^verbatim>\<open>auto_paginate\<close> with a non-empty page,
  in the cursor of the request just made. The start the server proposed is never used.
\<close>

theorem cursor_start_correction:
  assumes "json_body r = Some p"
    and "\<not> raise_for_status r"
    and "next_link p \<noteq> []"
    and "contains ''start'' (next_link p)"
    and "get_start_param_from_url U (next_link p) = Inr new_start"
    and "get_start_param_from_url U url = Inr previous_start"
    and "new_start - previous_start > int (length (results p))"
    and "update_param_in_path U (next_link p) ''start''
           (str_int (previous_start + int (length (results p)))) = Inr corrected"
  shows "paginate_step U auto_paginate url limit (GetResponse r) =
     (if auto_paginate \<and> results p \<noteq> []
      then (case update_param_in_path U url ''start''
                   (str_int (previous_start + int (length (results p)))) of
              Inl e \<Rightarrow> Raise (results p) e
            | Inr synthesized \<Rightarrow> Continue (results p) synthesized limit)
      else Continue (results p) corrected limit)"
  using assms
  by (auto simp: paginate_step_def next_cursor_def Let_def split: sum.splits)

theorem cursor_start_correction_witness:
  "paginate_step cursor_utils False ''rest/api/content/search?cql=type=page&limit=1000'' 1000
     (ok_page [JStr ''a'', JStr ''b'', JStr ''c'']
        ''rest/api/content/search?cql=type=page&start=200&limit=1000'')
   = Continue [JStr ''a'', JStr ''b'', JStr ''c'']
       ''rest/api/content/search?cql=type=page&start=3&limit=1000'' 1000"
proof -
  let ?url = "''rest/api/content/search?cql=type=page&limit=1000''"
  let ?next = "''rest/api/content/search?cql=type=page&start=200&limit=1000''"
  let ?p = "\<lparr>results = [JStr ''a'', JStr ''b'', JStr ''c''], next_link = ?next\<rparr>"
  let ?r = "\<lparr>status_code = 200, body_text = [], headers = Some (\<lambda>h. None),
             json_body = Some ?p\<rparr>"
  have h1: "json_body ?r = Some ?p" by simp
  have h2: "\<not> raise_for_status ?r" by (simp add: raise_for_status_def)
  have h3: "next_link ?p \<noteq> []" by simp
  have h4: "contains ''start'' (next_link ?p)" by simp
  have h5: "get_start_param_from_url cursor_utils (next_link ?p) = Inr 200"
    by (simp add: cursor_eval)
  have h6: "get_start_param_from_url cursor_utils ?url = Inr 0"
    by (simp add: cursor_eval)
  have h7: "200 - 0 > int (length (results ?p))" by simp
  have h8: "update_param_in_path cursor_utils (next_link ?p) ''start''
      (str_int (0 + int (length (results ?p))))
      = Inr ''rest/api/content/search?cql=type=page&start=3&limit=1000''"
    by (simp add: cursor_eval string_eval)
  from cursor_start_correction [of ?r ?p cursor_utils 200 ?url 0 _ False 1000,
      OF h1 h2 h3 h4 h5 h6 h7 h8]
  show ?thesis by (simp add: ok_page_def)
qed

text \<open>
  Claim C5 as stated fails for a 5xx status other than 500: a 503 at limit 1000 is raised
  at once, with no halving and no retry.
\<close>

theorem any_5xx_halves_limit_counterexample:
  "paginate_step cursor_utils False ''rest/api/content/search?cql=type=page&limit=1000'' 1000
     (GetResponse \<lparr>status_code = 503, body_text = [], headers = None, json_body = None\<rparr>)
   = Raise [] (HTTPError (Some \<lparr>status_code = 503, body_text = [], headers = None,
                                  json_body = None\<rparr>))"
  by (simp add: paginate_step_def raise_for_status_def)

text \<open>
  Claim C5, amended. For a failed GET (status 400 to 599) on a URL without the problematic
  expansion: when the status is exactly 500 and the limit exceeds 50, the loop halves the
  limit, replaces \<^verbatim>\<open>limit=<old>\<close> by \<^verbatim>\<open>limit=<new>\<close> in the URL and retries; in every
  other case, so for status 500 at a limit of 50 or less and for every other status
  (502, 503, ...) at any limit, the error is raised.
\<close>

theorem server_error_500_halves_limit:
  assumes "\<not> contains ''body.storage.value'' url"
    and "400 \<le> status_code r" and "status_code r < 600"
  shows "paginate_step U auto_paginate url limit (GetResponse r) =
     (if status_code r = 500 \<and> limit > 50
      then Continue []
             (str_replace url (''limit='' @ str_int limit) (''limit='' @ str_int (limit div 2)))
             (limit div 2)
      else Raise [] (HTTPError (Some r)))"
  using assms
  by (simp add: paginate_step_def raise_for_status_def Let_def)

theorem server_error_500_halves_limit_witness:
  "paginate_step cursor_utils False ''rest/api/content/search?cql=type=page&limit=1000'' 1000
     (GetResponse \<lparr>status_code = 500, body_text = [], headers = None, json_body = None\<rparr>)
   = Continue [] ''rest/api/content/search?cql=type=page&limit=500'' 500
   \<and> paginate_step cursor_utils False ''rest/api/content/search?cql=type=page&limit=50'' 50
     (GetResponse \<lparr>status_code = 500, body_text = [], headers = None, json_body = None\<rparr>)
   = Raise [] (HTTPError (Some \<lparr>status_code = 500, body_text = [], headers = None,
                                  json_body = None\<rparr>))"
proof -
  let ?r = "\<lparr>status_code = 500, body_text = [], headers = None, json_body = None\<rparr>"
  let ?u1 = "''rest/api/content/search?cql=type=page&limit=1000''"
  let ?u2 = "''rest/api/content/search?cql=type=page&limit=50''"
  have c1: "\<not> contains ''body.storage.value'' ?u1" by simp
  have c2: "\<not> contains ''body.storage.value'' ?u2" by simp
  have s: "400 \<le> status_code ?r" "status_code ?r < 600" by simp_all
  have rep: "str_replace ?u1 (''limit='' @ str_int 1000) (''limit='' @ str_int (1000 div 2))
      = ''rest/api/content/search?cql=type=page&limit=500''" by code_simp
  from server_error_500_halves_limit [of ?u1 ?r cursor_utils False 1000, OF c1 s]
  have a: "paginate_step cursor_utils False ?u1 1000 (GetResponse ?r)
      = Continue [] ''rest/api/content/search?cql=type=page&limit=500'' 500"
    using rep by simp
  from server_error_500_halves_limit [of ?u2 ?r cursor_utils False 50, OF c2 s]
  have b: "paginate_step cursor_utils False ?u2 50 (GetResponse ?r)
      = Raise [] (HTTPError (Some ?r))" by simp
  from a b show ?thesis by simp
qed










text \<open>
  Claim C8 as stated fails: under \<^verbatim>\<open>auto_paginate\<close> a first page with zero results and
  a cursor from the server is followed by a second request.
\<close>

theorem zero_results_ends_loop_counterexample:
  "requests (paginate_url cursor_utils True empty_page_with_cursor 10
      ''rest/api/search/user?cql=type=user'' None) =
   [(''rest/api/search/user?cql=type=user&limit=1000'', 1000),
    (''rest/api/search/user?cql=type=user&start=0&limit=1000'', 1000)]"
  by code_simp

text \<open>
  Claim C8, amended. Under \<^verbatim>\<open>auto_paginate\<close> a page with zero results is followed
  as without it: no cursor is synthesised and the loop continues with the cursor the
  server supplied (corrected as in C1). The loop ends after that page when the server
  supplied no cursor; a cursor without \<^verbatim>\<open>start\<close> is requested next as it is.
\<close>

theorem zero_results_follow_server_cursor:
  assumes "json_body r = Some p" and "results p = []" and "\<not> raise_for_status r"
  shows "paginate_step U True url limit (GetResponse r)
           = paginate_step U False url limit (GetResponse r)
     \<and> (next_link p = [] \<longrightarrow>
          paginate_step U True url limit (GetResponse r) = Continue [] [] limit)
     \<and> (next_link p \<noteq> [] \<and> \<not> contains ''start'' (next_link p) \<longrightarrow>
          paginate_step U True url limit (GetResponse r) = Continue [] (next_link p) limit)"
  using assms
  by (simp add: paginate_step_def next_cursor_def Let_def split: sum.splits)

theorem zero_results_follow_server_cursor_witness:
  "paginate_step cursor_utils True ''rest/api/search/user?cql=type=user&limit=1000'' 1000
     (ok_page [] []) = Continue [] [] 1000
   \<and> paginate_step cursor_utils True ''rest/api/search/user?cql=type=user&limit=1000'' 1000
     (ok_page [] ''rest/api/search/user?cursor=abc'')
       = Continue [] ''rest/api/search/user?cursor=abc'' 1000"
proof -
  let ?url = "''rest/api/search/user?cql=type=user&limit=1000''"
  let ?p1 = "\<lparr>results = [], next_link = []\<rparr>"
  let ?p2 = "\<lparr>results = [], next_link = ''rest/api/search/user?cursor=abc''\<rparr>"
  let ?r1 = "\<lparr>status_code = 200, body_text = [], headers = Some (\<lambda>h. None),
             json_body = Some ?p1\<rparr>"
  let ?r2 = "\<lparr>status_code = 200, body_text = [], headers = Some (\<lambda>h. None),
             json_body = Some ?p2\<rparr>"
  have n1: "\<not> raise_for_status ?r1" and n2: "\<not> raise_for_status ?r2"
    by (simp_all add: raise_for_status_def)
  have ns: "\<not> contains ''start'' (next_link ?p2)" by simp
  have j1: "json_body ?r1 = Some ?p1" and j2: "json_body ?r2 = Some ?p2" by simp_all
  have e1: "results ?p1 = []" and e2: "results ?p2 = []" by simp_all
  from zero_results_follow_server_cursor
    [of ?r1 ?p1 cursor_utils ?url 1000, OF j1 e1 n1, THEN conjunct2, THEN conjunct1]
  have a: "paginate_step cursor_utils True ?url 1000 (GetResponse ?r1) = Continue [] [] 1000"
    by simp
  from zero_results_follow_server_cursor
    [of ?r2 ?p2 cursor_utils ?url 1000, OF j2 e2 n2, THEN conjunct2, THEN conjunct2] ns
  have b: "paginate_step cursor_utils True ?url 1000 (GetResponse ?r2)
      = Continue [] ''rest/api/search/user?cursor=abc'' 1000"
    by simp
  from a b show ?thesis by (simp add: ok_page_def)
qed

section \<open>Properties of the nested-expansion resolver\<close>

lemma traverse_each_unchanged:
  assumes "\<And>v. v \<in> set vs \<Longrightarrow> f v s = Some (Inr v, s)"
  shows "traverse_each f vs s = Some (Inr vs, s)"
  using assms by (induction vs) auto

lemma foldr_max_ge: "x \<in> set xs \<Longrightarrow> (x::nat) \<le> foldr max xs 0"
  by (induction xs) auto

lemma zip_fst_snd: "zip (map fst d) (map snd d) = d"
  by (induction d) auto

text \<open>
  Claim C7 as stated fails. The resolver appends the fetched records and leaves the
  continuation link where it was; run again on its own result, it follows the link again
  and appends the records a second time.
\<close>

theorem resolver_idempotent_counterexample:
  "traverse_and_update one_more 3 truncated_comments 0 =
     Some (Inr (JDict [(''results'', JList [JStr ''first'', JStr ''second'']),
                       (''_links'', JDict [(''next'',
                           JStr ''/rest/api/content/1/child/comment?start=1'')])]), 1)
   \<and> traverse_and_update one_more 3
       (JDict [(''results'', JList [JStr ''first'', JStr ''second'']),
               (''_links'', JDict [(''next'',
                   JStr ''/rest/api/content/1/child/comment?start=1'')])]) 1 =
     Some (Inr (JDict [(''results'', JList [JStr ''first'', JStr ''second'', JStr ''second'']),
                       (''_links'', JDict [(''next'',
                           JStr ''/rest/api/content/1/child/comment?start=1'')])]), 2)"
  by (simp add: truncated_comments_def one_more_def next_url_of_def extend_results_def
      numeral_3_eq_3)

lemma traverse_resolved:
  "resolved data \<Longrightarrow> depth data \<le> fuel \<Longrightarrow>
   traverse_and_update fetch fuel data s = Some (Inr data, s)"
proof (induction fuel arbitrary: data)
  case 0
  then show ?case by (cases data) simp_all
next
  case (Suc fuel)
  show ?case
  proof (cases data)
    case (JDict d)
    from Suc.prems JDict obtain next_url where
      nu: "next_url_of d = Inr next_url" and
      quiet: "\<not> (truthy next_url \<and> map_of d ''results'' \<noteq> None)"
      by (auto split: sum.splits)
    have "\<And>v. v \<in> set (map snd d) \<Longrightarrow> traverse_and_update fetch fuel v s = Some (Inr v, s)"
    proof -
      fix v assume "v \<in> set (map snd d)"
      then obtain kv where kv: "kv \<in> set d" and v: "v = snd kv" by auto
      from kv Suc.prems(1) JDict have r: "resolved v" unfolding v by simp
      have "depth (snd kv) \<in> set (map (\<lambda>kv. depth (snd kv)) d)" using kv by simp
      from foldr_max_ge [OF this] Suc.prems(2) JDict have "depth v \<le> fuel"
        unfolding v by simp
      with r show "traverse_and_update fetch fuel v s = Some (Inr v, s)" by (rule Suc.IH)
    qed
    then have "traverse_each (\<lambda>v t. traverse_and_update fetch fuel v t) (map snd d) s
        = Some (Inr (map snd d), s)"
      by (rule traverse_each_unchanged)
    with nu quiet JDict show ?thesis by (auto simp: zip_fst_snd)
  next
    case (JList xs)
    have "\<And>v. v \<in> set xs \<Longrightarrow> traverse_and_update fetch fuel v s = Some (Inr v, s)"
    proof -
      fix v assume v: "v \<in> set xs"
      with Suc.prems(1) JList have r: "resolved v" by simp
      have "depth v \<in> set (map depth xs)" using v by simp
      from foldr_max_ge [OF this] Suc.prems(2) JList have "depth v \<le> fuel" by simp
      with r show "traverse_and_update fetch fuel v s = Some (Inr v, s)" by (rule Suc.IH)
    qed
    then have "traverse_each (\<lambda>v t. traverse_and_update fetch fuel v t) xs s
        = Some (Inr xs, s)"
      by (rule traverse_each_unchanged)
    with JList show ?thesis by simp
  qed simp_all
qed

lemma traverse_each_rel:
  assumes "traverse_each f xs s = Some (Inr ys, s')"
    and "\<And>x t y t'. f x t = Some (Inr y, t') \<Longrightarrow> R x y"
  shows "list_all2 R xs ys"
  using assms(1)
proof (induction xs arbitrary: s ys)
  case Nil
  then show ?case by simp
next
  case (Cons x xs)
  from Cons.prems obtain y s1 ys' where
    fx: "f x s = Some (Inr y, s1)" and
    rest: "traverse_each f xs s1 = Some (Inr ys', s')" and
    ys: "ys = y # ys'"
    by (auto split: option.splits sum.splits prod.splits)
  from assms(2) [OF fx] Cons.IH [OF rest] ys show ?case by simp
qed

lemma dict_set_keys:
  "map_of d k \<noteq> None \<Longrightarrow> map fst (dict_set k v d) = map fst d"
  by (induction d) (auto split: if_splits)

lemma dict_set_values:
  "map_of d k = Some old \<Longrightarrow>
   list_all2 (\<lambda>a b. b = a \<or> (a = old \<and> b = v)) (map snd d) (map snd (dict_set k v d))"
  by (induction d) (auto simp: list_all2_same split: if_splits)

inductive_cases extended_JListE: "extended (JList xs) c"

lemma extended_shorter:
  assumes "extended (JList (rs @ fetched)) c"
  shows "extended (JList rs) c"
proof -
  from assms consider
      (same) "c = JList (rs @ fetched)"
    | (in_list) ys zs where "c = JList (ys @ zs)" and "list_all2 extended (rs @ fetched) ys"
    by (auto elim: extended_JListE)
  then show ?thesis
  proof cases
    case same
    have "list_all2 extended rs rs" by (simp add: list_all2_same extended.same)
    then have "extended (JList rs) (JList (rs @ fetched))" by (rule extended.in_list)
    with same show ?thesis by simp
  next
    case in_list
    from in_list(2) have "list_all2 extended (take (length rs) (rs @ fetched)) (take (length rs) ys)"
      by (rule list_all2_takeI)
    then have "list_all2 extended rs (take (length rs) ys)" by simp
    then have "extended (JList rs) (JList (take (length rs) ys @ (drop (length rs) ys @ zs)))"
      by (rule extended.in_list)
    moreover have "take (length rs) ys @ (drop (length rs) ys @ zs) = ys @ zs"
      by (simp only: append_assoc [symmetric] append_take_drop_id)
    ultimately show ?thesis using in_list(1) by simp
  qed
qed

lemma traverse_extended:
  "traverse_and_update fetch fuel data s = Some (Inr data', s') \<Longrightarrow> extended data data'"
proof (induction fuel arbitrary: data s data' s')
  case 0
  then show ?case by simp
next
  case (Suc fuel)
  have each: "\<And>xs t ys t'.
      traverse_each (\<lambda>v t. traverse_and_update fetch fuel v t) xs t = Some (Inr ys, t')
      \<Longrightarrow> list_all2 extended xs ys"
    by (erule traverse_each_rel) (rule Suc.IH)
  show ?case
  proof (cases data)
    case (JList xs)
    with Suc.prems obtain ys where
      t: "traverse_each (\<lambda>v t. traverse_and_update fetch fuel v t) xs s = Some (Inr ys, s')"
      and d': "data' = JList ys"
      by (auto split: option.splits sum.splits prod.splits)
    from each [OF t] have "extended (JList xs) (JList (ys @ []))" by (rule extended.in_list)
    with JList d' show ?thesis by simp
  next
    case (JDict d)
    from Suc.prems JDict obtain next_url d1 s1 vs where
      nu: "next_url_of d = Inr next_url" and
      ext: "(if truthy next_url \<and> map_of d ''results'' \<noteq> None
             then extend_results fetch next_url d s else (Inr d, s)) = (Inr d1, s1)" and
      t: "traverse_each (\<lambda>v t. traverse_and_update fetch fuel v t) (map snd d1) s1
            = Some (Inr vs, s')" and
      d': "data' = JDict (zip (map fst d1) vs)"
      by (auto split: option.splits sum.splits prod.splits)
    from each [OF t] have vs: "list_all2 extended (map snd d1) vs" .
    then have len: "length vs = length d1" by (auto dest: list_all2_lengthD)
    have keys: "map fst d1 = map fst d"
      and vals: "list_all2 (\<lambda>a b. extended b c \<longrightarrow> extended a c) (map snd d) (map snd d1)" for c
    proof -
      show "map fst d1 = map fst d"
        using ext by (auto simp: extend_results_def dict_set_keys
            split: if_splits option.splits json.splits prod.splits sum.splits)
      show "list_all2 (\<lambda>a b. extended b c \<longrightarrow> extended a c) (map snd d) (map snd d1)"
      proof (cases "d1 = d")
        case True
        then show ?thesis by (simp add: list_all2_same)
      next
        case False
        with ext obtain rs fetched where
          r: "map_of d ''results'' = Some (JList rs)" and
          d1: "d1 = dict_set ''results'' (JList (rs @ fetched)) d"
          by (auto simp: extend_results_def
              split: if_splits option.splits json.splits prod.splits sum.splits)
        from dict_set_values [OF r, of "JList (rs @ fetched)"]
        show ?thesis unfolding d1
          by (rule list_all2_mono) (auto intro: extended_shorter)
      qed
    qed
    have "list_all2 extended (map snd d) vs"
    proof (rule list_all2_all_nthI)
      show "length (map snd d) = length vs" using len keys
        by (metis length_map)
    next
      fix i assume i: "i < length (map snd d)"
      have l1: "length (map snd d1) = length (map snd d)" using keys by (metis length_map)
      from vs i l1 have a: "extended (map snd d1 ! i) (vs ! i)"
        by (simp add: list_all2_conv_all_nth)
      from vals [of "vs ! i"] i have "extended (map snd d1 ! i) (vs ! i) \<longrightarrow> extended (map snd d ! i) (vs ! i)"
        by (simp add: list_all2_conv_all_nth)
      with a show "extended (map snd d ! i) (vs ! i)" by simp
    qed
    moreover have "length d1 = length d" using keys by (metis length_map)
    then have "map fst d = map fst (zip (map fst d1) vs)" using len keys by simp
    moreover have "map snd (zip (map fst d1) vs) = vs" using len by simp
    ultimately have "extended (JDict d) (JDict (zip (map fst d1) vs))"
      by (simp add: extended.in_dict)
    with JDict d' show ?thesis by simp
  next
    case JNull
    with Suc.prems show ?thesis by (simp add: extended.same)
  next
    case (JBool b)
    with Suc.prems show ?thesis by (simp add: extended.same)
  next
    case (JNum x)
    with Suc.prems show ?thesis by (simp add: extended.same)
  next
    case (JStr x)
    with Suc.prems show ?thesis by (simp add: extended.same)
  qed
qed

inductive_cases extended_JDictE: "extended (JDict d) c"

lemma extended_truthy: "extended v v' \<Longrightarrow> truthy v \<Longrightarrow> truthy v'"
  by (induction rule: extended.induct) auto

lemma map_of_related:
  assumes "map fst d = map fst d'" and "list_all2 R (map snd d) (map snd d')"
  shows "rel_option R (map_of d k) (map_of d' k)"
  using assms
proof (induction d arbitrary: d')
  case Nil
  then show ?case by simp
next
  case (Cons kv d)
  then obtain kv' e' where d': "d' = kv' # e'" by (cases d') auto
  with Cons.prems have k: "fst kv' = fst kv" and r: "R (snd kv) (snd kv')"
    and keys: "map fst d = map fst e'" and vals: "list_all2 R (map snd d) (map snd e')"
    by auto
  from Cons.IH [OF keys vals] k r d' show ?case
    by (cases kv; cases kv') auto
qed

lemma next_url_related:
  assumes keys: "map fst d = map fst d'"
    and vals: "list_all2 extended (map snd d) (map snd d')"
    and nu': "next_url_of d' = Inr u'"
  shows "\<exists>u. next_url_of d = Inr u \<and> (truthy u \<longrightarrow> truthy u')"
proof -
  from map_of_related [OF keys vals, of "''_links''"]
  have rel: "rel_option extended (map_of d ''_links'') (map_of d' ''_links'')" .
  show ?thesis
  proof (cases "map_of d ''_links''")
    case None
    then show ?thesis by (simp add: next_url_of_def)
  next
    case (Some v)
    with rel obtain v' where v': "map_of d' ''_links'' = Some v'" and e: "extended v v'"
      by (auto simp: option_rel_Some1)
    from nu' v' obtain l' where l': "v' = JDict l'"
      by (auto simp: next_url_of_def split: json.splits)
    from e l' obtain l where l: "v = JDict l"
      by (cases rule: extended.cases) auto
    from e l l' have "l' = l \<or> (map fst l = map fst l'
        \<and> list_all2 extended (map snd l) (map snd l'))"
      by (auto elim: extended_JDictE)
    then have inner: "rel_option extended (map_of l ''next'') (map_of l' ''next'')"
    proof
      assume "l' = l"
      then show ?thesis by (simp add: option.rel_refl extended.same)
    next
      assume "map fst l = map fst l' \<and> list_all2 extended (map snd l) (map snd l')"
      then show ?thesis by (simp add: map_of_related)
    qed
    have u': "u' = (case map_of l' ''next'' of None \<Rightarrow> JNull | Some w \<Rightarrow> w)"
      using nu' v' l' by (simp add: next_url_of_def)
    have u: "next_url_of d = Inr (case map_of l ''next'' of None \<Rightarrow> JNull | Some w \<Rightarrow> w)"
      using Some l by (simp add: next_url_of_def)
    from inner show ?thesis unfolding u u'
      by (cases "map_of l ''next''"; cases "map_of l' ''next''")
         (auto dest: extended_truthy)
  qed
qed

lemma extended_resolved: "extended v v' \<Longrightarrow> resolved v' \<Longrightarrow> resolved v"
proof (induction rule: extended.induct)
  case (same v)
  then show ?case by simp
next
  case (in_list xs ys zs)
  from in_list.prems have r: "\<forall>y \<in> set ys. resolved y" by simp
  have "\<forall>x \<in> set xs. resolved x"
  proof
    fix x assume "x \<in> set xs"
    then obtain i where i: "i < length xs" and x: "x = xs ! i" by (auto simp: in_set_conv_nth)
    from in_list.IH i have "i < length ys" and "resolved (ys ! i) \<longrightarrow> resolved (xs ! i)"
      by (auto simp: list_all2_conv_all_nth)
    with r x show "resolved x" by simp
  qed
  then show ?case by simp
next
  case (in_dict d d')
  from in_dict.IH have ext: "list_all2 extended (map snd d) (map snd d')"
    by (rule list_all2_mono) simp
  from in_dict.prems obtain u' where nu': "next_url_of d' = Inr u'"
    and quiet': "\<not> (truthy u' \<and> map_of d' ''results'' \<noteq> None)"
    and r: "\<forall>kv \<in> set d'. resolved (snd kv)"
    by (auto split: sum.splits)
  from next_url_related [OF in_dict.hyps(1) ext nu'] obtain u where
    nu: "next_url_of d = Inr u" and tr: "truthy u \<longrightarrow> truthy u'" by blast
  from map_of_related [OF in_dict.hyps(1) ext, of "''results''"]
  have "map_of d ''results'' \<noteq> None \<longrightarrow> map_of d' ''results'' \<noteq> None"
    by (cases "map_of d ''results''"; cases "map_of d' ''results''") auto
  with tr quiet' have quiet: "\<not> (truthy u \<and> map_of d ''results'' \<noteq> None)" by blast
  have "\<forall>kv \<in> set d. resolved (snd kv)"
  proof
    fix kv assume "kv \<in> set d"
    then obtain i where i: "i < length d" and kv: "kv = d ! i" by (auto simp: in_set_conv_nth)
    from in_dict.IH i have i': "i < length d'"
      and imp: "resolved (snd (d' ! i)) \<longrightarrow> resolved (snd (d ! i))"
      by (auto simp: list_all2_conv_all_nth)
    from r i' have "resolved (snd (d' ! i))" by simp
    with imp kv show "resolved (snd kv)" by simp
  qed
  with nu quiet show ?case by simp
qed

lemma truncated_comments_run:
  "traverse_and_update one_more 3 truncated_comments 0 =
     Some (Inr (JDict [(''results'', JList [JStr ''first'', JStr ''second'']),
                       (''_links'', JDict [(''next'',
                           JStr ''/rest/api/content/1/child/comment?start=1'')])]), 1)"
  by (simp add: truncated_comments_def one_more_def next_url_of_def extend_results_def
      numeral_3_eq_3)

text \<open>
  Claim C7, amended. Call a record resolved when every \<^verbatim>\<open>_links\<close> entry in it is a
  mapping and no mapping in it has both a \<^verbatim>\<open>results\<close> key and a truthy
  \<^verbatim>\<open>_links.next\<close>. On a resolved record the resolver fetches nothing (the state of the
  server is untouched) and returns the record as it was, once the fuel covers the
  record's depth. The resolver never takes away what makes it fetch: whenever a run on a
  record that is not resolved succeeds, the record it returns is not resolved either.
\<close>

theorem resolver_keeps_what_it_finds:
  "(resolved data \<and> depth data \<le> fuel \<longrightarrow>
      traverse_and_update fetch fuel data s = Some (Inr data, s))
   \<and> (traverse_and_update fetch fuel data s = Some (Inr data', s') \<and> \<not> resolved data \<longrightarrow>
      \<not> resolved data')"
proof (intro conjI impI)
  assume "resolved data \<and> depth data \<le> fuel"
  then show "traverse_and_update fetch fuel data s = Some (Inr data, s)"
    by (simp add: traverse_resolved)
next
  assume a: "traverse_and_update fetch fuel data s = Some (Inr data', s') \<and> \<not> resolved data"
  then have "extended data data'" by (blast intro: traverse_extended)
  with a show "\<not> resolved data'" by (blast dest: extended_resolved)
qed

theorem resolver_keeps_what_it_finds_witness:
  "traverse_and_update one_more 3
     (JDict [(''results'', JList [JStr ''first'', JStr ''second'']),
             (''_links'', JDict [(''self'', JStr ''/rest/api/content/1/child/comment'')])]) 0
   = Some (Inr (JDict [(''results'', JList [JStr ''first'', JStr ''second'']),
             (''_links'', JDict [(''self'', JStr ''/rest/api/content/1/child/comment'')])]), 0)
   \<and> traverse_and_update one_more 3 truncated_comments 0
     = Some (Inr (JDict [(''results'', JList [JStr ''first'', JStr ''second'']),
                         (''_links'', JDict [(''next'',
                             JStr ''/rest/api/content/1/child/comment?start=1'')])]), 1)
   \<and> \<not> resolved truncated_comments
   \<and> \<not> resolved (JDict [(''results'', JList [JStr ''first'', JStr ''second'']),
                         (''_links'', JDict [(''next'',
                             JStr ''/rest/api/content/1/child/comment?start=1'')])])"
proof -
  let ?d = "JDict [(''results'', JList [JStr ''first'', JStr ''second'']),
             (''_links'', JDict [(''self'', JStr ''/rest/api/content/1/child/comment'')])]"
  let ?e = "JDict [(''results'', JList [JStr ''first'', JStr ''second'']),
             (''_links'', JDict [(''next'',
                 JStr ''/rest/api/content/1/child/comment?start=1'')])]"
  have r: "resolved ?d \<and> depth ?d \<le> 3" by (simp add: next_url_of_def)
  have n: "\<not> resolved truncated_comments"
    by (simp add: truncated_comments_def next_url_of_def)
  from resolver_keeps_what_it_finds [of ?d 3 one_more 0] r
  have a: "traverse_and_update one_more 3 ?d 0 = Some (Inr ?d, 0)" by blast
  from resolver_keeps_what_it_finds [of truncated_comments 3 one_more 0 ?e 1]
    truncated_comments_run n
  have b: "\<not> resolved ?e" by blast
  from a b n truncated_comments_run show ?thesis by simp
qed

section \<open>Properties of the connector validation\<close>

lemma validation_read_fails:
  assumes "make_client credentials is_cloud wiki_base 6 10 False = Inr c"
    and "get_all_spaces c = Inl e"
  shows "build_confluence_client get_all_spaces credentials is_cloud wiki_base
           = Inl (ConnectorValidationError e)"
  using assms by (simp add: build_confluence_client_def validate_connector_configuration_def)

lemma validation_falsy_answer:
  assumes "make_client credentials is_cloud wiki_base 6 10 False = Inr c"
    and "get_all_spaces c = Inr spaces" and "\<not> truthy spaces"
  shows "build_confluence_client get_all_spaces credentials is_cloud wiki_base
           = Inl (ConnectorValidationError RuntimeError)"
  using assms by (simp add: build_confluence_client_def validate_connector_configuration_def)

text \<open>
  Claim C9. The validation makes one read call on a client with minimal retries and
  raises when the call raises or its answer is falsy; the production client is
  constructed only afterwards. An answer with zero results is the library's mapping with
  an empty \<^verbatim>\<open>results\<close> list, which is truthy: on it the validation passes and the
  production client is handed out.
\<close>

theorem validation_passes_with_zero_results:
  "build_confluence_client (\<lambda>c. Inr no_spaces) server_credentials False
     ''https://wiki.example.com/'' =
   Inr \<lparr>api_version = ''latest'', base_url = ''https://wiki.example.com'',
        username = None, password = None, token = Some ''secret'',
        max_backoff_retries = 10, max_backoff_seconds = 60, wrapped = True\<rparr>"
  by (simp add: build_confluence_client_def validate_connector_configuration_def
      make_client_def server_credentials_def no_spaces_def rstrip_slash_def)

end
